theory Spec2Isabelle
  imports Complex_Main "HOL-Library.Multiset"
begin

section \<open>Relevant segment extraction: the segment selector\<close>

text \<open>
  The notebook \<^verbatim>\<open>09_rse.ipynb\<close> selects contiguous ranges of chunk indices with the
  function \<^verbatim>\<open>find_best_segments(chunk_values, max_segment_length, total_max_length,
  min_segment_value)\<close>. Chunk values are Python floats; they are modelled as exact reals,
  so that \<^verbatim>\<open>sum\<close> is \<open>sum_list\<close> and \<^verbatim>\<open>>\<close> is the order of the reals. A float
  sum is rounded, and how depends on the interpreter; where the rounding decides a result,
  the selector is taken with the summation as a parameter (the definitions named
  \<open>_with\<close> below).
  The two length limits are Python integers of either sign, hence \<open>int\<close>. A segment is the
  tuple \<^verbatim>\<open>(start, end)\<close>.
\<close>

type_synonym segment = "int \<times> int"

text \<open>
  Python's slice \<^verbatim>\<open>xs[i:j]\<close>: a negative bound counts from the end, and both bounds
  are clamped to the list.
\<close>

definition slice :: "'a list \<Rightarrow> int \<Rightarrow> int \<Rightarrow> 'a list" where
  "slice xs i j =
     (let n = int (length xs);
          lo = (if i < 0 then max 0 (i + n) else min i n);
          hi = (if j < 0 then max 0 (j + n) else min j n)
      in take (nat (hi - lo)) (drop (nat lo) xs))"

text \<open>
  \<^verbatim>\<open>any(start >= s[0] and start < s[1] for s in best_segments)\<close> and
  \<^verbatim>\<open>any(end > s[0] and end <= s[1] for s in best_segments)\<close>.
\<close>

definition start_in_selected :: "int \<Rightarrow> segment list \<Rightarrow> bool" where
  "start_in_selected start best_segments =
     list_ex (\<lambda>s. start \<ge> fst s \<and> start < snd s) best_segments"

definition end_in_selected :: "int \<Rightarrow> segment list \<Rightarrow> bool" where
  "end_in_selected end best_segments =
     list_ex (\<lambda>s. end > fst s \<and> end \<le> snd s) best_segments"

text \<open>
  The state of one round of the search is the pair \<^verbatim>\<open>(best_score, best_segment)\<close>, with
  \<^verbatim>\<open>best_segment = None\<close> until a candidate beats the threshold. The body of the inner
  loop, for one \<^verbatim>\<open>length\<close>:
\<close>

definition try_length ::
  "real list \<Rightarrow> segment list \<Rightarrow> int \<Rightarrow> int \<Rightarrow> real \<times> segment option \<Rightarrow> real \<times> segment option" where
  "try_length chunk_values best_segments start len st =
     (let end = start + len in
      if end_in_selected end best_segments then st
      else
        let segment_value = sum_list (slice chunk_values start end) in
        if segment_value > fst st then (segment_value, Some (start, end)) else st)"

text \<open>
  The body of the outer loop, for one \<^verbatim>\<open>start\<close>; the inner loop runs over
  \<^verbatim>\<open>range(1, min(max_segment_length, len(chunk_values) - start) + 1)\<close>.
\<close>

definition try_start ::
  "real list \<Rightarrow> segment list \<Rightarrow> int \<Rightarrow> int \<Rightarrow> real \<times> segment option \<Rightarrow> real \<times> segment option" where
  "try_start chunk_values best_segments max_segment_length start st =
     (if start_in_selected start best_segments then st
      else fold (try_length chunk_values best_segments start)
             [1 .. min max_segment_length (int (length chunk_values) - start)] st)"

text \<open>
  One round: the \<^verbatim>\<open>for start in range(len(chunk_values))\<close> loop, started from
  \<^verbatim>\<open>best_score = min_segment_value\<close> and \<^verbatim>\<open>best_segment = None\<close>.
\<close>

definition search_round ::
  "real list \<Rightarrow> segment list \<Rightarrow> int \<Rightarrow> real \<Rightarrow> real \<times> segment option" where
  "search_round chunk_values best_segments max_segment_length min_segment_value =
     fold (try_start chunk_values best_segments max_segment_length)
       [0 .. int (length chunk_values) - 1] (min_segment_value, None)"

text \<open>
  The \<^verbatim>\<open>while total_included_chunks < total_max_length\<close> loop. It carries the segments and
  the scores in the order they are found and the running total. A tuple is truthy in
  Python, so \<^verbatim>\<open>if best_segment\<close> tests for \<^verbatim>\<open>None\<close> only. The loop is a partial
  function: \<open>None\<close> stands for a run that never leaves the loop.
\<close>

partial_function (option) selection_loop ::
  "real list \<Rightarrow> int \<Rightarrow> int \<Rightarrow> real \<Rightarrow> segment list \<Rightarrow> real list \<Rightarrow> int
     \<Rightarrow> (segment list \<times> real list) option" where
  "selection_loop chunk_values max_segment_length total_max_length min_segment_value
       best_segments segment_scores total_included_chunks =
     (if total_included_chunks < total_max_length then
        (case search_round chunk_values best_segments max_segment_length min_segment_value of
           (best_score, Some best_segment) \<Rightarrow>
             selection_loop chunk_values max_segment_length total_max_length min_segment_value
               (best_segments @ [best_segment]) (segment_scores @ [best_score])
               (total_included_chunks + (snd best_segment - fst best_segment))
         | (best_score, None) \<Rightarrow> Some (best_segments, segment_scores))
      else Some (best_segments, segment_scores))"

declare selection_loop.simps [code]

text \<open>
  The whole function: the loop from the empty selection, then
  \<^verbatim>\<open>sorted(best_segments, key=lambda x: x[0])\<close>; the scores are returned as the loop
  left them.
\<close>

definition find_best_segments ::
  "real list \<Rightarrow> int \<Rightarrow> int \<Rightarrow> real \<Rightarrow> (segment list \<times> real list) option" where
  "find_best_segments chunk_values max_segment_length total_max_length min_segment_value =
     map_option (\<lambda>(best_segments, segment_scores). (sort_key fst best_segments, segment_scores))
       (selection_loop chunk_values max_segment_length total_max_length min_segment_value [] [] 0)"

text \<open>
  The same function with the summation left open. A finite float is the real it denotes and
  floats compare as those reals do, but \<^verbatim>\<open>sum\<close> returns the exact sum rounded, by
  left-to-right addition up to Python 3.11 and by compensated summation from 3.12. Here
  \<open>fsum\<close> stands for whatever \<^verbatim>\<open>sum\<close> computes; everything else is as above.
\<close>

definition try_length_with ::
  "(real list \<Rightarrow> real) \<Rightarrow> real list \<Rightarrow> segment list \<Rightarrow> int \<Rightarrow> int
     \<Rightarrow> real \<times> segment option \<Rightarrow> real \<times> segment option" where
  "try_length_with fsum chunk_values best_segments start len st =
     (let end = start + len in
      if end_in_selected end best_segments then st
      else
        let segment_value = fsum (slice chunk_values start end) in
        if segment_value > fst st then (segment_value, Some (start, end)) else st)"

definition try_start_with ::
  "(real list \<Rightarrow> real) \<Rightarrow> real list \<Rightarrow> segment list \<Rightarrow> int \<Rightarrow> int
     \<Rightarrow> real \<times> segment option \<Rightarrow> real \<times> segment option" where
  "try_start_with fsum chunk_values best_segments max_segment_length start st =
     (if start_in_selected start best_segments then st
      else fold (try_length_with fsum chunk_values best_segments start)
             [1 .. min max_segment_length (int (length chunk_values) - start)] st)"

definition search_round_with ::
  "(real list \<Rightarrow> real) \<Rightarrow> real list \<Rightarrow> segment list \<Rightarrow> int \<Rightarrow> real
     \<Rightarrow> real \<times> segment option" where
  "search_round_with fsum chunk_values best_segments max_segment_length min_segment_value =
     fold (try_start_with fsum chunk_values best_segments max_segment_length)
       [0 .. int (length chunk_values) - 1] (min_segment_value, None)"

partial_function (option) selection_loop_with ::
  "(real list \<Rightarrow> real) \<Rightarrow> real list \<Rightarrow> int \<Rightarrow> int \<Rightarrow> real \<Rightarrow> segment list \<Rightarrow> real list
     \<Rightarrow> int \<Rightarrow> (segment list \<times> real list) option" where
  "selection_loop_with fsum chunk_values max_segment_length total_max_length min_segment_value
       best_segments segment_scores total_included_chunks =
     (if total_included_chunks < total_max_length then
        (case search_round_with fsum chunk_values best_segments max_segment_length
                min_segment_value of
           (best_score, Some best_segment) \<Rightarrow>
             selection_loop_with fsum chunk_values max_segment_length total_max_length
               min_segment_value
               (best_segments @ [best_segment]) (segment_scores @ [best_score])
               (total_included_chunks + (snd best_segment - fst best_segment))
         | (best_score, None) \<Rightarrow> Some (best_segments, segment_scores))
      else Some (best_segments, segment_scores))"

declare selection_loop_with.simps [code]

definition find_best_segments_with ::
  "(real list \<Rightarrow> real) \<Rightarrow> real list \<Rightarrow> int \<Rightarrow> int \<Rightarrow> real
     \<Rightarrow> (segment list \<times> real list) option" where
  "find_best_segments_with fsum chunk_values max_segment_length total_max_length
       min_segment_value =
     map_option (\<lambda>(best_segments, segment_scores). (sort_key fst best_segments, segment_scores))
       (selection_loop_with fsum chunk_values max_segment_length total_max_length
          min_segment_value [] [] 0)"

text \<open>
  A summation that is exact except on the window \<^verbatim>\<open>[0.9, 0.9, 0.1]\<close>, where it is one
  rounding step above 1.9, as left-to-right double addition is
  (\<^verbatim>\<open>sum([0.9, 0.9, 0.1]) = 1.9000000000000001\<close> and \<^verbatim>\<open>sum([0.1, 0.9, 0.9]) = 1.9\<close>).
\<close>

definition sum_one_step_up :: "real list \<Rightarrow> real" where
  "sum_one_step_up xs =
     (if xs = [9/10, 9/10, 1/10] then 19/10 + 1/10^16 else sum_list xs)"

text \<open>The length of a segment, and the total length of a list of segments.\<close>

definition segment_length :: "segment \<Rightarrow> int" where
  "segment_length s = snd s - fst s"

definition total_length :: "segment list \<Rightarrow> int" where
  "total_length segs = sum_list (map segment_length segs)"

text \<open>Two half-open ranges overlap when some index lies in both.\<close>

definition overlap :: "segment \<Rightarrow> segment \<Rightarrow> bool" where
  "overlap a b = (max (fst a) (fst b) < min (snd a) (snd b))"

text \<open>The score of a segment, \<^verbatim>\<open>sum(chunk_values[start:end])\<close>.\<close>

definition segment_value :: "real list \<Rightarrow> segment \<Rightarrow> real" where
  "segment_value chunk_values s = sum_list (slice chunk_values (fst s) (snd s))"

text \<open>
  The windows a round looks at: a start inside the list and outside every selected
  segment, a length from 1 to the smaller of \<^verbatim>\<open>max_segment_length\<close> and the rest of the
  list, and an end that is not inside a selected segment.
\<close>

definition candidate :: "real list \<Rightarrow> segment list \<Rightarrow> int \<Rightarrow> segment \<Rightarrow> bool" where
  "candidate chunk_values best_segments max_segment_length s =
     (0 \<le> fst s \<and> fst s < int (length chunk_values) \<and>
      1 \<le> snd s - fst s \<and> snd s - fst s \<le> max_segment_length \<and>
      snd s \<le> int (length chunk_values) \<and>
      \<not> start_in_selected (fst s) best_segments \<and>
      \<not> end_in_selected (snd s) best_segments)"

text \<open>
  What holds of the search state throughout a round: either nothing has been found and
  the best score is still the threshold, or the best segment is a window of the round, the
  best score is its value, and that value is above the threshold.
\<close>

definition round_state ::
  "real list \<Rightarrow> segment list \<Rightarrow> int \<Rightarrow> real \<Rightarrow> real \<times> segment option \<Rightarrow> bool" where
  "round_state chunk_values best_segments max_segment_length min_segment_value st =
     (case snd st of
        None \<Rightarrow> fst st = min_segment_value
      | Some s \<Rightarrow>
          candidate chunk_values best_segments max_segment_length s \<and>
          fst st = segment_value chunk_values s \<and> min_segment_value < fst st)"

text \<open>The shape every selected segment has: inside the list, not empty, not too long.\<close>

definition well_formed :: "real list \<Rightarrow> int \<Rightarrow> segment \<Rightarrow> bool" where
  "well_formed chunk_values max_segment_length s =
     (0 \<le> fst s \<and> fst s < snd s \<and> snd s \<le> int (length chunk_values) \<and>
      snd s - fst s \<le> max_segment_length)"

section \<open>The search of one round\<close>

text \<open>
  Both \<^verbatim>\<open>for\<close> loops are folds, so a property of the search state that the loop body
  keeps holds when the loop is done.
\<close>

lemma fold_invariant:
  assumes "P st" and "\<And>x st. x \<in> set xs \<Longrightarrow> P st \<Longrightarrow> P (f x st)"
  shows "P (fold f xs st)"
  using assms by (induction xs arbitrary: st) auto

lemma try_length_round_state:
  assumes "round_state vs sel msl m st"
    and "0 \<le> start" and "start < int (length vs)"
    and "\<not> start_in_selected start sel"
    and "1 \<le> len" and "len \<le> min msl (int (length vs) - start)"
  shows "round_state vs sel msl m (try_length vs sel start len st)"
proof -
  have lower: "m \<le> fst st"
    using assms(1) by (auto simp: round_state_def split: option.splits)
  show ?thesis
  proof (cases "end_in_selected (start + len) sel")
    case True
    then show ?thesis using assms(1) by (simp add: try_length_def)
  next
    case free: False
    show ?thesis
    proof (cases "sum_list (slice vs start (start + len)) > fst st")
      case True
      have "candidate vs sel msl (start, start + len)"
        using assms free by (simp add: candidate_def)
      with True lower free show ?thesis
        by (simp add: try_length_def round_state_def segment_value_def Let_def)
    next
      case False
      with free show ?thesis using assms(1) by (simp add: try_length_def Let_def)
    qed
  qed
qed

lemma try_start_round_state:
  assumes "round_state vs sel msl m st"
    and "0 \<le> start" and "start < int (length vs)"
  shows "round_state vs sel msl m (try_start vs sel msl start st)"
proof (cases "start_in_selected start sel")
  case True
  then show ?thesis using assms(1) by (simp add: try_start_def)
next
  case False
  have "round_state vs sel msl m
          (fold (try_length vs sel start) [1 .. min msl (int (length vs) - start)] st)"
  proof (rule fold_invariant)
    show "round_state vs sel msl m st" by (rule assms(1))
  next
    fix len st'
    assume "len \<in> set [1 .. min msl (int (length vs) - start)]"
      and "round_state vs sel msl m st'"
    then show "round_state vs sel msl m (try_length vs sel start len st')"
      using assms(2,3) False by (intro try_length_round_state) auto
  qed
  with False show ?thesis by (simp add: try_start_def)
qed

lemma search_round_state: "round_state vs sel msl m (search_round vs sel msl m)"
  unfolding search_round_def
proof (rule fold_invariant)
  show "round_state vs sel msl m (m, None)" by (simp add: round_state_def)
next
  fix start st
  assume "start \<in> set [0 .. int (length vs) - 1]" and "round_state vs sel msl m st"
  then show "round_state vs sel msl m (try_start vs sel msl start st)"
    by (intro try_start_round_state) auto
qed

lemma search_round_Some:
  assumes "search_round vs sel msl m = (bs, Some s)"
  shows "candidate vs sel msl s" and "bs = segment_value vs s" and "m < bs"
  using search_round_state [of vs sel msl m] assms by (simp_all add: round_state_def)

lemma search_round_None:
  assumes "search_round vs sel msl m = (bs, None)"
  shows "bs = m"
  using search_round_state [of vs sel msl m] assms by (simp add: round_state_def)


section \<open>The selection loop\<close>

text \<open>
  The rule for the \<^verbatim>\<open>while\<close> loop: the loop returns, and a property of the loop state
  that holds at the start and that every round keeps holds of the state it returns. The
  distance of the running total from \<^verbatim>\<open>total_max_length\<close> shrinks in every round that
  finds a segment, since the segment found has a length of at least 1. On return the
  total has reached the limit or the last round found nothing.
\<close>

lemma selection_loop_rule:
  assumes init: "I sel sc tot"
    and step: "\<And>sel sc tot bs s. I sel sc tot \<Longrightarrow> tot < tml \<Longrightarrow>
                 search_round vs sel msl m = (bs, Some s) \<Longrightarrow>
                 I (sel @ [s]) (sc @ [bs]) (tot + (snd s - fst s))"
  shows "\<exists>segs scores tot'. selection_loop vs msl tml m sel sc tot = Some (segs, scores) \<and>
           I segs scores tot' \<and>
           (tml \<le> tot' \<or> snd (search_round vs segs msl m) = None)"
  using init
proof (induction "nat (tml - tot)" arbitrary: sel sc tot rule: less_induct)
  case less
  show ?case
  proof (cases "tot < tml")
    case False
    with less.prems show ?thesis
      by (subst selection_loop.simps) auto
  next
    case running: True
    obtain bs found where round: "search_round vs sel msl m = (bs, found)"
      by (cases "search_round vs sel msl m")
    show ?thesis
    proof (cases found)
      case None
      with running round less.prems show ?thesis
        by (subst selection_loop.simps) auto
    next
      case (Some s)
      have grows: "1 \<le> snd s - fst s"
        using search_round_Some(1) [of vs sel msl m bs s] round Some
        by (simp add: candidate_def)
      have "\<exists>segs scores tot'.
              selection_loop vs msl tml m (sel @ [s]) (sc @ [bs]) (tot + (snd s - fst s)) =
                Some (segs, scores) \<and> I segs scores tot' \<and>
              (tml \<le> tot' \<or> snd (search_round vs segs msl m) = None)"
      proof (rule less.hyps)
        show "nat (tml - (tot + (snd s - fst s))) < nat (tml - tot)"
          using grows running by linarith
        show "I (sel @ [s]) (sc @ [bs]) (tot + (snd s - fst s))"
          using step [of sel sc tot bs s] less.prems running round Some by simp
      qed
      with running round Some show ?thesis
        by (subst selection_loop.simps) simp
    qed
  qed
qed

lemma find_best_segments_rule:
  assumes init: "I [] [] 0"
    and step: "\<And>sel sc tot bs s. I sel sc tot \<Longrightarrow> tot < tml \<Longrightarrow>
                 search_round vs sel msl m = (bs, Some s) \<Longrightarrow>
                 I (sel @ [s]) (sc @ [bs]) (tot + (snd s - fst s))"
  shows "\<exists>found scores tot'.
           selection_loop vs msl tml m [] [] 0 = Some (found, scores) \<and>
           find_best_segments vs msl tml m = Some (sort_key fst found, scores) \<and>
           I found scores tot' \<and>
           (tml \<le> tot' \<or> snd (search_round vs found msl m) = None)"
proof -
  obtain found scores tot' where
    "selection_loop vs msl tml m [] [] 0 = Some (found, scores)"
    "I found scores tot'" "tml \<le> tot' \<or> snd (search_round vs found msl m) = None"
    using selection_loop_rule [of I "[]" "[]" 0 tml vs msl m, OF init step] by blast
  then show ?thesis by (auto simp: find_best_segments_def)
qed

lemma total_length_append: "total_length (sel @ [s]) = total_length sel + (snd s - fst s)"
  by (simp add: total_length_def segment_length_def)

lemma total_length_sort_key: "total_length (sort_key f segs) = total_length (segs :: segment list)"
proof -
  have "mset (map segment_length (sort_key f segs)) = mset (map segment_length segs)"
    by simp
  then show ?thesis unfolding total_length_def by (metis sum_mset_sum_list)
qed

text \<open>The equations that evaluate the selector on a concrete input.\<close>

lemmas selector_eval =
  find_best_segments_def search_round_def try_start_def try_length_def
  start_in_selected_def end_in_selected_def slice_def upto.simps selection_loop.simps

section \<open>Rounds that find nothing\<close>

text \<open>
  When no window of a round has a value above the threshold, the round leaves the search
  state as it started; when the first round does so, or no round runs, the selector
  returns the empty lists.
\<close>

lemma search_round_nothing:
  assumes "\<And>s. candidate vs sel msl s \<Longrightarrow> segment_value vs s \<le> m"
  shows "search_round vs sel msl m = (m, None)"
  unfolding search_round_def
proof (rule fold_invariant [where P = "\<lambda>st. st = (m, None)"])
  fix start and st :: "real \<times> segment option"
  assume start: "start \<in> set [0 .. int (length vs) - 1]" and st: "st = (m, None)"
  show "try_start vs sel msl start st = (m, None)"
  proof (cases "start_in_selected start sel")
    case True
    with st show ?thesis by (simp add: try_start_def)
  next
    case False
    have "fold (try_length vs sel start) [1 .. min msl (int (length vs) - start)] st = (m, None)"
    proof (rule fold_invariant [where P = "\<lambda>st. st = (m, None)"])
      fix len and st' :: "real \<times> segment option"
      assume len: "len \<in> set [1 .. min msl (int (length vs) - start)]" and st': "st' = (m, None)"
      show "try_length vs sel start len st' = (m, None)"
      proof (cases "end_in_selected (start + len) sel")
        case True
        with st' show ?thesis by (simp add: try_length_def)
      next
        case free: False
        have "candidate vs sel msl (start, start + len)"
          using start len False free by (simp add: candidate_def)
        then have "segment_value vs (start, start + len) \<le> m" by (rule assms)
        with st' free show ?thesis
          by (simp add: try_length_def segment_value_def)
      qed
    qed (rule st)
    with False show ?thesis by (simp add: try_start_def)
  qed
qed simp

lemma selection_loop_nothing:
  assumes "tml \<le> 0 \<or> search_round vs [] msl m = (m, None)"
  shows "find_best_segments vs msl tml m = Some ([], [])"
  using assms unfolding find_best_segments_def
  by (subst selection_loop.simps) auto

section \<open>Invariants of the selection\<close>

text \<open>
  The scores are recorded in the order the segments are found, each the value of its
  segment and above the threshold. The starts of the segments found are pairwise different,
  because a start inside a selected segment is skipped and every selected segment contains
  its own start. The running total stays below the sum of the two limits once it is below.
\<close>

lemma recorded_scores:
  "\<exists>found scores.
     selection_loop vs msl tml m [] [] 0 = Some (found, scores) \<and>
     find_best_segments vs msl tml m = Some (sort_key fst found, scores) \<and>
     scores = map (segment_value vs) found \<and> (\<forall>x \<in> set scores. m < x)"
proof -
  let ?I = "\<lambda>sel sc (tot :: int). sc = map (segment_value vs) sel \<and> (\<forall>x \<in> set sc. m < x)"
  have "\<exists>found scores tot'.
          selection_loop vs msl tml m [] [] 0 = Some (found, scores) \<and>
          find_best_segments vs msl tml m = Some (sort_key fst found, scores) \<and>
          ?I found scores tot' \<and>
          (tml \<le> tot' \<or> snd (search_round vs found msl m) = None)"
  proof (rule find_best_segments_rule)
    show "?I [] [] 0" by simp
  next
    fix sel sc tot bs s
    assume "?I sel sc tot" and "search_round vs sel msl m = (bs, Some s)"
    moreover from this have "bs = segment_value vs s" and "m < bs"
      using search_round_Some(2,3) [of vs sel msl m bs s] by simp_all
    ultimately show "?I (sel @ [s]) (sc @ [bs]) (tot + (snd s - fst s))" by auto
  qed
  then show ?thesis by blast
qed

lemma distinct_starts:
  "\<exists>found scores.
     selection_loop vs msl tml m [] [] 0 = Some (found, scores) \<and>
     find_best_segments vs msl tml m = Some (sort_key fst found, scores) \<and>
     distinct (map fst found)"
proof -
  let ?I = "\<lambda>sel (sc :: real list) (tot :: int).
              distinct (map fst sel) \<and> (\<forall>t \<in> set sel. fst t < snd t)"
  have "\<exists>found scores tot'.
          selection_loop vs msl tml m [] [] 0 = Some (found, scores) \<and>
          find_best_segments vs msl tml m = Some (sort_key fst found, scores) \<and>
          ?I found scores tot' \<and>
          (tml \<le> tot' \<or> snd (search_round vs found msl m) = None)"
  proof (rule find_best_segments_rule)
    show "?I [] [] 0" by simp
  next
    fix sel sc tot bs s
    assume inv: "?I sel sc tot" and round: "search_round vs sel msl m = (bs, Some s)"
    have cand: "candidate vs sel msl s"
      using search_round_Some(1) [OF round] .
    have "fst s \<noteq> fst t" if "t \<in> set sel" for t
    proof
      assume "fst s = fst t"
      with that inv have "fst t \<le> fst s \<and> fst s < snd t" by auto
      with that have "start_in_selected (fst s) sel"
        by (auto simp: start_in_selected_def list_ex_iff)
      with cand show False by (simp add: candidate_def)
    qed
    moreover have "fst s < snd s" using cand by (simp add: candidate_def)
    ultimately show "?I (sel @ [s]) (sc @ [bs]) (tot + (snd s - fst s))"
      using inv by auto
  qed
  then show ?thesis by blast
qed

lemma sort_key_fst_strict:
  assumes "distinct (map fst (found :: segment list))"
  shows "sorted (map fst (sort_key fst found))" and "distinct (sort_key fst found)"
    and "distinct (map fst (sort_key fst found))"
proof -
  show "sorted (map fst (sort_key fst found))" by (rule sorted_sort_key)
  have "mset (map fst (sort_key fst found)) = mset (map fst found)" by simp
  then show d: "distinct (map fst (sort_key fst found))"
    using assms by (metis mset_eq_imp_distinct_iff)
  from d show "distinct (sort_key fst found)" by (simp add: distinct_map)
qed

lemma covered_length_invariant:
  assumes "tot = total_length sel" and "tot < tml + msl"
  shows "\<exists>segs scores. selection_loop vs msl tml m sel sc tot = Some (segs, scores) \<and>
           total_length segs < tml + msl"
proof -
  let ?I = "\<lambda>sel (sc :: real list) tot. tot = total_length sel \<and> tot < tml + msl"
  have "\<exists>segs scores tot'. selection_loop vs msl tml m sel sc tot = Some (segs, scores) \<and>
           ?I segs scores tot' \<and>
           (tml \<le> tot' \<or> snd (search_round vs segs msl m) = None)"
  proof (rule selection_loop_rule)
    show "?I sel sc tot" using assms by simp
  next
    fix sel sc tot bs s
    assume "?I sel sc tot" and "tot < tml" and "search_round vs sel msl m = (bs, Some s)"
    moreover from this have "snd s - fst s \<le> msl"
      using search_round_Some(1) [of vs sel msl m bs s] by (simp add: candidate_def)
    ultimately show "?I (sel @ [s]) (sc @ [bs]) (tot + (snd s - fst s))"
      by (simp add: total_length_append)
  qed
  then show ?thesis by auto
qed

section \<open>Termination\<close>

text \<open>
  C9. The selection loop terminates on every input, from every loop state and whatever the
  signs of \<^verbatim>\<open>max_segment_length\<close> and \<^verbatim>\<open>total_max_length\<close>: the selector returns a
  result. A round that finds a segment finds one of length at least 1, so the covered
  length grows by at least 1 in every round that does not break, and the number of
  segments added is at most \<^verbatim>\<open>total_max_length\<close> (none at all when it is not positive).
\<close>

theorem selection_loop_terminates:
  "(\<exists>r. selection_loop vs msl tml m sel sc tot = Some r) \<and>
   (\<exists>segs scores. find_best_segments vs msl tml m = Some (segs, scores) \<and>
      int (length segs) \<le> max 0 tml) \<and>
   (\<forall>bs s. search_round vs sel msl m = (bs, Some s) \<longrightarrow> 1 \<le> segment_length s)"
proof (intro conjI allI impI)
  show "\<exists>r. selection_loop vs msl tml m sel sc tot = Some r"
    using selection_loop_rule [of "\<lambda>_ _ _. True" sel sc tot tml vs msl m] by auto
next
  let ?I = "\<lambda>sel (sc :: real list) tot. int (length sel) \<le> tot \<and> int (length sel) \<le> max 0 tml"
  have "\<exists>found scores tot'.
          selection_loop vs msl tml m [] [] 0 = Some (found, scores) \<and>
          find_best_segments vs msl tml m = Some (sort_key fst found, scores) \<and>
          ?I found scores tot' \<and>
          (tml \<le> tot' \<or> snd (search_round vs found msl m) = None)"
  proof (rule find_best_segments_rule)
    show "?I [] [] 0" by simp
  next
    fix sel sc tot bs s
    assume "?I sel sc tot" and "tot < tml" and "search_round vs sel msl m = (bs, Some s)"
    moreover from this have "1 \<le> snd s - fst s"
      using search_round_Some(1) [of vs sel msl m bs s] by (simp add: candidate_def)
    ultimately show "?I (sel @ [s]) (sc @ [bs]) (tot + (snd s - fst s))" by auto
  qed
  then show "\<exists>segs scores. find_best_segments vs msl tml m = Some (segs, scores) \<and>
      int (length segs) \<le> max 0 tml"
    by auto
next
  fix bs s
  assume "search_round vs sel msl m = (bs, Some s)"
  then show "1 \<le> segment_length s"
    using search_round_Some(1) [of vs sel msl m bs s]
    by (simp add: candidate_def segment_length_def)
qed

theorem selection_loop_terminates_witness:
  "find_best_segments [1, - 5, 3] 1 2 0 = Some ([(0, 1), (2, 3)], [3, 1]) \<and>
   int (length [(0::int, 1::int), (2, 3)]) \<le> max 0 2 \<and>
   search_round [1, - 5, 3] [] 1 0 = (3, Some (2, 3)) \<and> 1 \<le> segment_length (2, 3)"
  using selection_loop_terminates [of "[1, - 5, 3]" 1 2 0 "[]" "[]" 0]
  by (simp add: selector_eval segment_length_def)

section \<open>Shape and order of the result\<close>

text \<open>
  C6. For every input, with \<open>N\<close> the length of \<^verbatim>\<open>chunk_values\<close>, the selector returns, and
  every returned segment \<^verbatim>\<open>(start, end)\<close> satisfies \<open>0 \<le> start < end \<le> N\<close> and
  \<open>end - start \<le> max_segment_length\<close>.
\<close>

theorem returned_segments_in_bounds:
  "\<exists>segs scores. find_best_segments vs msl tml m = Some (segs, scores) \<and>
     (\<forall>s \<in> set segs. 0 \<le> fst s \<and> fst s < snd s \<and> snd s \<le> int (length vs) \<and>
        snd s - fst s \<le> msl)"
proof -
  let ?I = "\<lambda>sel (sc :: real list) (tot :: int). \<forall>s \<in> set sel. well_formed vs msl s"
  have "\<exists>found scores tot'.
          selection_loop vs msl tml m [] [] 0 = Some (found, scores) \<and>
          find_best_segments vs msl tml m = Some (sort_key fst found, scores) \<and>
          ?I found scores tot' \<and>
          (tml \<le> tot' \<or> snd (search_round vs found msl m) = None)"
  proof (rule find_best_segments_rule)
    show "?I [] [] 0" by simp
  next
    fix sel sc tot bs s
    assume "?I sel sc tot" and "search_round vs sel msl m = (bs, Some s)"
    moreover from this have "well_formed vs msl s"
      using search_round_Some(1) [of vs sel msl m bs s]
      by (simp add: candidate_def well_formed_def)
    ultimately show "?I (sel @ [s]) (sc @ [bs]) (tot + (snd s - fst s))" by auto
  qed
  then show ?thesis by (auto simp: well_formed_def)
qed

theorem returned_segments_in_bounds_witness:
  "find_best_segments [- 1, 10, - 1] 3 4 0 = Some ([(0, 3), (1, 2)], [10, 8]) \<and>
   list_all (\<lambda>s. 0 \<le> fst s \<and> fst s < snd s \<and> snd s \<le> int (length [- 1, 10, - 1 :: real]) \<and>
        snd s - fst s \<le> 3) [(0, 3), (1, 2)]"
  using returned_segments_in_bounds [of "[- 1, 10, - 1]" 3 4 0]
  by (simp add: selector_eval)

text \<open>
  C7. The returned segments are the segments found, sorted by start: the list of starts is
  ascending and no segment occurs twice. The returned scores are the values of the
  segments in the order they were found; they are not put in the order of the sorted
  segments, and on \<^verbatim>\<open>[1, -5, 3]\<close> with limits 1 and 2 and threshold 0 the two orders differ.
\<close>

theorem sorted_segments_unsorted_scores:
  "(\<exists>found scores.
      selection_loop vs msl tml m [] [] 0 = Some (found, scores) \<and>
      find_best_segments vs msl tml m = Some (sort_key fst found, scores) \<and>
      sorted (map fst (sort_key fst found)) \<and> distinct (sort_key fst found) \<and>
      scores = map (segment_value vs) found) \<and>
   (\<exists>vs' msl' tml' m' segs scores.
      find_best_segments vs' msl' tml' m' = Some (segs, scores) \<and>
      scores \<noteq> map (segment_value vs') segs)"
proof
  obtain found scores where loop: "selection_loop vs msl tml m [] [] 0 = Some (found, scores)"
    and result: "find_best_segments vs msl tml m = Some (sort_key fst found, scores)"
    and starts: "distinct (map fst found)"
    using distinct_starts [of vs msl tml m] by blast
  moreover have "sorted (map fst (sort_key fst found))"
    by (rule sort_key_fst_strict(1) [OF starts])
  moreover have "distinct (sort_key fst found)"
    by (rule sort_key_fst_strict(2) [OF starts])
  moreover have "scores = map (segment_value vs) found"
    using recorded_scores [of vs msl tml m] loop by auto
  ultimately show "\<exists>found scores.
      selection_loop vs msl tml m [] [] 0 = Some (found, scores) \<and>
      find_best_segments vs msl tml m = Some (sort_key fst found, scores) \<and>
      sorted (map fst (sort_key fst found)) \<and> distinct (sort_key fst found) \<and>
      scores = map (segment_value vs) found"
    by blast
next
  have "find_best_segments [1, - 5, 3] 1 2 0 = Some ([(0, 1), (2, 3)], [3, 1])"
    by (simp add: selector_eval)
  moreover have "[3, 1] \<noteq> map (segment_value [1, - 5, 3]) [(0, 1), (2, 3)]"
    by (simp add: segment_value_def slice_def)
  ultimately show "\<exists>vs' msl' tml' m' segs scores.
      find_best_segments vs' msl' tml' m' = Some (segs, scores) \<and>
      scores \<noteq> map (segment_value vs') segs"
    by blast
qed

theorem sorted_segments_unsorted_scores_witness:
  "selection_loop [1, - 5, 3] 1 2 0 [] [] 0 = Some ([(2, 3), (0, 1)], [3, 1]) \<and>
   find_best_segments [1, - 5, 3] 1 2 0 = Some ([(0, 1), (2, 3)], [3, 1]) \<and>
   sort_key fst [(2, 3), (0, 1)] = [(0::int, 1::int), (2, 3)] \<and>
   map (segment_value [1, - 5, 3]) [(2, 3), (0, 1)] = [3, 1]"
  using sorted_segments_unsorted_scores [of "[1, - 5, 3]" 1 2 0]
  by (simp add: selector_eval segment_value_def)

section \<open>Scores and the threshold\<close>

text \<open>
  C5. The recorded score of every segment found is \<^verbatim>\<open>sum(chunk_values[start:end])\<close> and is
  strictly greater than \<^verbatim>\<open>min_segment_value\<close>; so is the value of every returned segment.
  A round accepts a segment only with a value strictly above the threshold, never one whose
  value equals it.
\<close>

theorem recorded_score_above_threshold:
  "(\<exists>found scores.
      find_best_segments vs msl tml m = Some (sort_key fst found, scores) \<and>
      scores = map (segment_value vs) found \<and>
      (\<forall>x \<in> set scores. m < x) \<and>
      (\<forall>s \<in> set (sort_key fst found). m < segment_value vs s)) \<and>
   (\<forall>bs s. search_round vs sel msl m = (bs, Some s) \<longrightarrow>
      bs = segment_value vs s \<and> m < bs \<and> segment_value vs s \<noteq> m)"
proof
  obtain found scores where
    "find_best_segments vs msl tml m = Some (sort_key fst found, scores)"
    "scores = map (segment_value vs) found" "\<forall>x \<in> set scores. m < x"
    using recorded_scores [of vs msl tml m] by blast
  then show "\<exists>found scores.
      find_best_segments vs msl tml m = Some (sort_key fst found, scores) \<and>
      scores = map (segment_value vs) found \<and>
      (\<forall>x \<in> set scores. m < x) \<and>
      (\<forall>s \<in> set (sort_key fst found). m < segment_value vs s)"
    by (intro exI [of _ found] exI [of _ scores]) auto
next
  show "\<forall>bs s. search_round vs sel msl m = (bs, Some s) \<longrightarrow>
      bs = segment_value vs s \<and> m < bs \<and> segment_value vs s \<noteq> m"
    using search_round_Some(2,3) by fastforce
qed

theorem recorded_score_above_threshold_witness:
  "find_best_segments [1, 2, - 5, 3] 2 4 3 = Some ([], []) \<and>
   find_best_segments [1, 2, - 5, 3] 2 4 2 = Some ([(0, 2), (3, 4)], [3, 3]) \<and>
   segment_value [1, 2, - 5, 3] (0, 2) = 3 \<and> segment_value [1, 2, - 5, 3] (3, 4) = 3 \<and>
   search_round [1, 2, - 5, 3] [] 2 2 = (3, Some (0, 2))"
  using recorded_score_above_threshold [of "[1, 2, - 5, 3]" 2 4 2 "[]"]
  by (simp add: selector_eval segment_value_def)

text \<open>
  C8. If \<^verbatim>\<open>chunk_values\<close> is empty, or if no window of the first round (a start in the list,
  a length from 1 to the smaller of \<^verbatim>\<open>max_segment_length\<close> and the rest of the list) has a
  sum strictly greater than \<^verbatim>\<open>min_segment_value\<close>, the selector returns the empty segment
  list and the empty score list.
\<close>

theorem nothing_qualifies_returns_empty:
  assumes "vs = [] \<or>
           (\<forall>start len. 0 \<le> start \<and> start < int (length vs) \<and>
                1 \<le> len \<and> len \<le> min msl (int (length vs) - start) \<longrightarrow>
                sum_list (slice vs start (start + len)) \<le> m)"
  shows "find_best_segments vs msl tml m = Some ([], [])"
proof -
  have "segment_value vs s \<le> m" if "candidate vs [] msl s" for s
  proof -
    from that have nonempty: "vs \<noteq> []" by (auto simp: candidate_def)
    have "0 \<le> fst s \<and> fst s < int (length vs) \<and> 1 \<le> snd s - fst s \<and>
          snd s - fst s \<le> min msl (int (length vs) - fst s)"
      using that by (simp add: candidate_def)
    with assms nonempty have "sum_list (slice vs (fst s) (fst s + (snd s - fst s))) \<le> m"
      by blast
    then show ?thesis by (simp add: segment_value_def)
  qed
  then have "search_round vs [] msl m = (m, None)" by (rule search_round_nothing)
  then show ?thesis by (simp add: selection_loop_nothing)
qed

theorem nothing_qualifies_returns_empty_witness:
  "find_best_segments [1, 2] 2 5 3 = Some ([], []) \<and>
   sum_list (slice [1, 2 :: real] 0 2) = 3 \<and>
   find_best_segments [] 2 5 3 = Some ([], [])"
proof -
  have "sum_list (slice [1, 2 :: real] start (start + len)) \<le> 3"
    if "0 \<le> start \<and> start < int (length [1, 2 :: real]) \<and> 1 \<le> len \<and>
        len \<le> min 2 (int (length [1, 2 :: real]) - start)" for start len
  proof -
    from that have "(start = 0 \<and> len = 1) \<or> (start = 0 \<and> len = 2) \<or> (start = 1 \<and> len = 1)"
      by auto
    then show ?thesis by (auto simp: slice_def)
  qed
  then have "find_best_segments [1, 2] 2 5 3 = Some ([], [])"
    using nothing_qualifies_returns_empty [of "[1, 2]" 2 3 5] by blast
  moreover have "find_best_segments [] 2 5 3 = Some ([], [])"
    using nothing_qualifies_returns_empty [of "[]" 2 3 5] by simp
  ultimately show ?thesis by (simp add: slice_def)
qed

section \<open>The limits\<close>

text \<open>
  C4. The selector has no failure: on every input it returns a result. With a non-positive
  \<^verbatim>\<open>max_segment_length\<close> or a non-positive \<^verbatim>\<open>total_max_length\<close> it returns the empty
  segment list and the empty score list, where an \<^verbatim>\<open>InvalidArgument\<close> failure was expected:
  the source has no \<^verbatim>\<open>raise\<close>, and a returned \<open>Some\<close> is a normal return.
\<close>

theorem nonpositive_limits_return_empty:
  "(\<exists>r. find_best_segments vs msl tml m = Some r) \<and>
   (msl \<le> 0 \<or> tml \<le> 0 \<longrightarrow> find_best_segments vs msl tml m = Some ([], []))"
proof
  show "\<exists>r. find_best_segments vs msl tml m = Some r"
    using find_best_segments_rule [of "\<lambda>_ _ _. True" tml vs msl m] by auto
next
  show "msl \<le> 0 \<or> tml \<le> 0 \<longrightarrow> find_best_segments vs msl tml m = Some ([], [])"
  proof
    assume "msl \<le> 0 \<or> tml \<le> 0"
    then show "find_best_segments vs msl tml m = Some ([], [])"
    proof
      assume "msl \<le> 0"
      then have "search_round vs [] msl m = (m, None)"
        by (intro search_round_nothing) (simp add: candidate_def)
      then show ?thesis by (simp add: selection_loop_nothing)
    next
      assume "tml \<le> 0"
      then show ?thesis by (simp add: selection_loop_nothing)
    qed
  qed
qed

theorem nonpositive_limits_return_empty_witness:
  "find_best_segments [5] 0 1 0 = Some ([], []) \<and>
   find_best_segments [5] 1 (- 2) 0 = Some ([], [])"
  using nonpositive_limits_return_empty [of "[5]" 0 1 0]
    nonpositive_limits_return_empty [of "[5]" 1 "- 2" 0]
  by simp

theorem no_invalid_argument_counterexample:
  "find_best_segments [1] 0 5 0 = Some ([], []) \<and>
   find_best_segments [1] 5 0 0 = Some ([], [])"
  by (simp add: selector_eval)

text \<open>
  C10. For every input with \<^verbatim>\<open>max_segment_length >= 1\<close> and
  \<^verbatim>\<open>total_max_length + max_segment_length > 0\<close>, the total length of the returned segments
  is strictly less than \<^verbatim>\<open>total_max_length + max_segment_length\<close>: a round starts only
  below \<^verbatim>\<open>total_max_length\<close> and adds at most \<^verbatim>\<open>max_segment_length\<close>. With
  \<^verbatim>\<open>total_max_length <= - max_segment_length\<close> the bound fails before the first round: the
  result is empty and its total length 0 is not below the sum of the limits.
\<close>

theorem total_length_below_sum_of_limits:
  assumes "1 \<le> msl" and "0 < tml + msl"
  shows "\<exists>segs scores. find_best_segments vs msl tml m = Some (segs, scores) \<and>
           total_length segs < tml + msl"
proof -
  obtain found scores where
    "selection_loop vs msl tml m [] [] 0 = Some (found, scores)"
    "total_length found < tml + msl"
    using covered_length_invariant [of 0 "[]" tml msl vs m "[]"] assms(2)
    by (auto simp: total_length_def)
  then show ?thesis
    by (simp add: find_best_segments_def total_length_sort_key)
qed

theorem total_length_below_sum_of_limits_witness:
  "find_best_segments [1, 1, 1, 1] 3 4 0 = Some ([(0, 3), (3, 4)], [3, 1]) \<and>
   total_length [(0, 3), (3, 4)] < 4 + 3"
  using total_length_below_sum_of_limits [of 3 4 "[1, 1, 1, 1]" 0]
  by (simp add: selector_eval total_length_def segment_length_def)

theorem negative_total_limit_counterexample:
  "find_best_segments [] 1 (- 1) 0 = Some ([], []) \<and> \<not> total_length [] < - 1 + 1"
  by (simp add: selector_eval total_length_def)

text \<open>
  C2. The total length of the returned segments can exceed \<^verbatim>\<open>total_max_length\<close>: the loop
  compares the total with the limit before a round and not the total the round will reach.
  On \<^verbatim>\<open>[1, 1, 1]\<close> with \<^verbatim>\<open>max_segment_length = 3\<close>, \<^verbatim>\<open>total_max_length = 1\<close> and
  threshold 0 the one returned segment has length 3.
\<close>

theorem total_length_exceeds_limit:
  "find_best_segments [1, 1, 1] 3 1 0 = Some ([(0, 3)], [3]) \<and> 1 < total_length [(0, 3)]"
  by (simp add: selector_eval total_length_def segment_length_def)

section \<open>Overlap\<close>

text \<open>
  C1. Returned segments can overlap: a round skips a window whose start or whose end lies in
  a selected segment, and so keeps a window that encloses one. On \<^verbatim>\<open>[-1, 10, -1]\<close> with
  \<^verbatim>\<open>max_segment_length = 3\<close>, \<^verbatim>\<open>total_max_length = 4\<close> and threshold 0 the first round
  selects \<^verbatim>\<open>(1, 2)\<close> and the second \<^verbatim>\<open>(0, 3)\<close>, which contains it.
\<close>

theorem enclosing_segment_overlaps:
  "find_best_segments [- 1, 10, - 1] 3 4 0 = Some ([(0, 3), (1, 2)], [10, 8]) \<and>
   search_round [- 1, 10, - 1] [] 3 0 = (10, Some (1, 2)) \<and>
   search_round [- 1, 10, - 1] [(1, 2)] 3 0 = (8, Some (0, 3)) \<and>
   overlap (0, 3) (1, 2)"
  by (simp add: selector_eval overlap_def)

section \<open>The selector with a rounded sum\<close>

text \<open>With the exact sum for \<open>fsum\<close> the two selectors are the same function.\<close>

lemma try_length_with_sum_list: "try_length_with sum_list = try_length"
  by (intro ext) (simp add: try_length_with_def try_length_def)

lemma try_start_with_sum_list: "try_start_with sum_list = try_start"
  by (intro ext) (simp add: try_start_with_def try_start_def try_length_with_sum_list)

lemma search_round_with_sum_list: "search_round_with sum_list = search_round"
  by (intro ext) (simp add: search_round_with_def search_round_def try_start_with_sum_list)

lemma selection_loop_with_sum_list:
  "selection_loop_with sum_list vs msl tml m sel sc tot = selection_loop vs msl tml m sel sc tot"
proof (induction "nat (tml - tot)" arbitrary: sel sc tot rule: less_induct)
  case less
  show ?case
  proof (cases "tot < tml")
    case False
    then show ?thesis
      by (subst selection_loop_with.simps, subst selection_loop.simps) simp
  next
    case running: True
    obtain bs found where round: "search_round vs sel msl m = (bs, found)"
      by (cases "search_round vs sel msl m")
    show ?thesis
    proof (cases found)
      case None
      with running round show ?thesis
        by (subst selection_loop_with.simps, subst selection_loop.simps)
          (simp add: search_round_with_sum_list)
    next
      case (Some s)
      have "1 \<le> snd s - fst s"
        using search_round_Some(1) [of vs sel msl m bs s] round Some
        by (simp add: candidate_def)
      with running have "nat (tml - (tot + (snd s - fst s))) < nat (tml - tot)"
        by linarith
      then have "selection_loop_with sum_list vs msl tml m (sel @ [s]) (sc @ [bs])
                   (tot + (snd s - fst s)) =
                 selection_loop vs msl tml m (sel @ [s]) (sc @ [bs]) (tot + (snd s - fst s))"
        by (rule less.hyps)
      with running round Some show ?thesis
        by (subst selection_loop_with.simps, subst selection_loop.simps)
          (simp add: search_round_with_sum_list)
    qed
  qed
qed

lemma find_best_segments_with_sum_list: "find_best_segments_with sum_list = find_best_segments"
  by (intro ext)
    (simp add: find_best_segments_with_def find_best_segments_def selection_loop_with_sum_list)

text \<open>The equations that evaluate the selector with a given summation.\<close>

lemmas with_eval =
  find_best_segments_with_def search_round_with_def try_start_with_def try_length_with_def
  start_in_selected_def end_in_selected_def slice_def upto.simps selection_loop_with.simps

section \<open>A trace\<close>

text \<open>
  C3. On \<^verbatim>\<open>[0.1, 0.1, 0.9, 0.9, 0.1]\<close> with \<^verbatim>\<open>max_segment_length = 3\<close>,
  \<^verbatim>\<open>total_max_length = 5\<close> and \<^verbatim>\<open>min_segment_value = 0.15\<close>, the first round never
  selects \<^verbatim>\<open>(2, 4)\<close>: the windows \<^verbatim>\<open>(1, 4)\<close> and \<^verbatim>\<open>(2, 5)\<close> of length 3 both score 1.9
  up to the rounding of the sum, above the 1.8 of \<^verbatim>\<open>(2, 4)\<close>. The first round selects
  \<^verbatim>\<open>(2, 5)\<close> when its computed sum is strictly greater than that of \<^verbatim>\<open>(1, 4)\<close>, and
  \<^verbatim>\<open>(1, 4)\<close> otherwise. After \<^verbatim>\<open>(2, 5)\<close> the second round selects \<^verbatim>\<open>(0, 2)\<close> with score
  0.2, and the selector returns \<^verbatim>\<open>[(0, 2), (2, 5)]\<close> with the scores in the order found;
  after \<^verbatim>\<open>(1, 4)\<close> the second round finds nothing above 0.15, and the selector returns
  the one segment \<^verbatim>\<open>(1, 4)\<close>. This holds for the floats nearest to the decimals written
  and for every summation that is within a thousandth of the exact sum on the windows of
  this list, so for both ways Python sums floats.
\<close>

theorem trace_under_rounding:
  fixes fsum :: "real list \<Rightarrow> real"
  assumes v0: "\<bar>v0 - 1/10\<bar> \<le> 1/1000" and v1: "\<bar>v1 - 1/10\<bar> \<le> 1/1000"
    and v2: "\<bar>v2 - 9/10\<bar> \<le> 1/1000" and v3: "\<bar>v3 - 9/10\<bar> \<le> 1/1000"
    and v4: "\<bar>v4 - 1/10\<bar> \<le> 1/1000"
    and m: "\<bar>m - 15/100\<bar> \<le> 1/1000"
    and acc: "\<forall>s e. \<bar>fsum (slice [v0, v1, v2, v3, v4] s e) -
                     sum_list (slice [v0, v1, v2, v3, v4] s e)\<bar> \<le> 1/1000"
  shows "search_round_with fsum [v0, v1, v2, v3, v4] [] 3 m =
           (if fsum [v1, v2, v3] < fsum [v2, v3, v4]
            then (fsum [v2, v3, v4], Some (2, 5)) else (fsum [v1, v2, v3], Some (1, 4))) \<and>
         search_round_with fsum [v0, v1, v2, v3, v4] [(1, 4)] 3 m = (m, None) \<and>
         search_round_with fsum [v0, v1, v2, v3, v4] [(2, 5)] 3 m = (fsum [v0, v1], Some (0, 2)) \<and>
         find_best_segments_with fsum [v0, v1, v2, v3, v4] 3 5 m =
           (if fsum [v1, v2, v3] < fsum [v2, v3, v4]
            then Some ([(0, 2), (2, 5)], [fsum [v2, v3, v4], fsum [v0, v1]])
            else Some ([(1, 4)], [fsum [v1, v2, v3]])) \<and>
         \<bar>fsum [v1, v2, v3] - 19/10\<bar> \<le> 4/1000 \<and> \<bar>fsum [v2, v3, v4] - 19/10\<bar> \<le> 4/1000 \<and>
         \<bar>fsum [v0, v1] - 2/10\<bar> \<le> 3/1000 \<and> \<bar>fsum [v2, v3] - 18/10\<bar> \<le> 3/1000"
proof -
  have w0: "99/1000 \<le> v0 \<and> v0 \<le> 101/1000" using v0 by linarith
  have w1: "99/1000 \<le> v1 \<and> v1 \<le> 101/1000" using v1 by linarith
  have w2: "899/1000 \<le> v2 \<and> v2 \<le> 901/1000" using v2 by linarith
  have w3: "899/1000 \<le> v3 \<and> v3 \<le> 901/1000" using v3 by linarith
  have w4: "99/1000 \<le> v4 \<and> v4 \<le> 101/1000" using v4 by linarith
  have wm: "149/1000 \<le> m \<and> m \<le> 151/1000" using m by linarith
  have a: "sum_list (slice [v0, v1, v2, v3, v4] s e) - 1/1000 \<le> fsum (slice [v0, v1, v2, v3, v4] s e)
           \<and> fsum (slice [v0, v1, v2, v3, v4] s e) \<le> sum_list (slice [v0, v1, v2, v3, v4] s e) + 1/1000"
    for s e
    using acc [rule_format, of s e] by linarith
  have f0: "98/1000 \<le> fsum [v0] \<and> fsum [v0] \<le> 102/1000"
    using a [of 0 1] w0 by (auto simp: slice_def)
  have f1: "98/1000 \<le> fsum [v1] \<and> fsum [v1] \<le> 102/1000"
    using a [of 1 2] w1 by (auto simp: slice_def)
  have f2: "898/1000 \<le> fsum [v2] \<and> fsum [v2] \<le> 902/1000"
    using a [of 2 3] w2 by (auto simp: slice_def)
  have f3: "898/1000 \<le> fsum [v3] \<and> fsum [v3] \<le> 902/1000"
    using a [of 3 4] w3 by (auto simp: slice_def)
  have f4: "98/1000 \<le> fsum [v4] \<and> fsum [v4] \<le> 102/1000"
    using a [of 4 5] w4 by (auto simp: slice_def)
  have f01: "197/1000 \<le> fsum [v0, v1] \<and> fsum [v0, v1] \<le> 203/1000"
    using a [of 0 2] w0 w1 by (auto simp: slice_def)
  have f12: "997/1000 \<le> fsum [v1, v2] \<and> fsum [v1, v2] \<le> 1003/1000"
    using a [of 1 3] w1 w2 by (auto simp: slice_def)
  have f23: "1797/1000 \<le> fsum [v2, v3] \<and> fsum [v2, v3] \<le> 1803/1000"
    using a [of 2 4] w2 w3 by (auto simp: slice_def)
  have f34: "997/1000 \<le> fsum [v3, v4] \<and> fsum [v3, v4] \<le> 1003/1000"
    using a [of 3 5] w3 w4 by (auto simp: slice_def)
  have f012: "1096/1000 \<le> fsum [v0, v1, v2] \<and> fsum [v0, v1, v2] \<le> 1104/1000"
    using a [of 0 3] w0 w1 w2 by (auto simp: slice_def)
  have f123: "1896/1000 \<le> fsum [v1, v2, v3] \<and> fsum [v1, v2, v3] \<le> 1904/1000"
    using a [of 1 4] w1 w2 w3 by (auto simp: slice_def)
  have f234: "1896/1000 \<le> fsum [v2, v3, v4] \<and> fsum [v2, v3, v4] \<le> 1904/1000"
    using a [of 2 5] w2 w3 w4 by (auto simp: slice_def)
  have c1: "\<not> m < fsum [v0]" using wm f0 by linarith
  have c2: "m < fsum [v0, v1]" using wm f01 by linarith
  have c3: "fsum [v0, v1] < fsum [v0, v1, v2]" using f01 f012 by linarith
  have c4: "\<not> fsum [v0, v1, v2] < fsum [v1]" using f012 f1 by linarith
  have c5: "\<not> fsum [v0, v1, v2] < fsum [v1, v2]" using f012 f12 by linarith
  have c6: "fsum [v0, v1, v2] < fsum [v1, v2, v3]" using f012 f123 by linarith
  have c7: "\<not> fsum [v1, v2, v3] < fsum [v2]" using f123 f2 by linarith
  have c8: "\<not> fsum [v1, v2, v3] < fsum [v2, v3]" using f123 f23 by linarith
  have c9: "\<not> fsum [v1, v2, v3] < fsum [v3]" "\<not> fsum [v1, v2, v3] < fsum [v3, v4]"
    "\<not> fsum [v1, v2, v3] < fsum [v4]" using f123 f3 f34 f4 by linarith+
  have c10: "\<not> fsum [v2, v3, v4] < fsum [v3]" "\<not> fsum [v2, v3, v4] < fsum [v3, v4]"
    "\<not> fsum [v2, v3, v4] < fsum [v4]" using f234 f3 f34 f4 by linarith+
  have c11: "\<not> m < fsum [v4]" "\<not> fsum [v0, v1] < fsum [v1]" using wm f4 f01 f1 by linarith+
  note cmp = c1 c2 c3 c4 c5 c6 c7 c8 c9 c10 c11
  have r1: "search_round_with fsum [v0, v1, v2, v3, v4] [] 3 m =
           (if fsum [v1, v2, v3] < fsum [v2, v3, v4]
            then (fsum [v2, v3, v4], Some (2, 5)) else (fsum [v1, v2, v3], Some (1, 4)))"
    by (cases "fsum [v1, v2, v3] < fsum [v2, v3, v4]") (simp_all add: with_eval cmp)
  have r2a: "search_round_with fsum [v0, v1, v2, v3, v4] [(1, 4)] 3 m = (m, None)"
    by (simp add: with_eval cmp)
  have r2b: "search_round_with fsum [v0, v1, v2, v3, v4] [(2, 5)] 3 m =
               (fsum [v0, v1], Some (0, 2))"
    by (simp add: with_eval cmp)
  have res: "find_best_segments_with fsum [v0, v1, v2, v3, v4] 3 5 m =
           (if fsum [v1, v2, v3] < fsum [v2, v3, v4]
            then Some ([(0, 2), (2, 5)], [fsum [v2, v3, v4], fsum [v0, v1]])
            else Some ([(1, 4)], [fsum [v1, v2, v3]]))"
    unfolding find_best_segments_with_def
    by (cases "fsum [v1, v2, v3] < fsum [v2, v3, v4]")
      (simp_all add: selection_loop_with.simps r1 r2a r2b)
  have b: "\<bar>fsum [v1, v2, v3] - 19/10\<bar> \<le> 4/1000" "\<bar>fsum [v2, v3, v4] - 19/10\<bar> \<le> 4/1000"
    "\<bar>fsum [v0, v1] - 2/10\<bar> \<le> 3/1000" "\<bar>fsum [v2, v3] - 18/10\<bar> \<le> 3/1000"
    using f123 f234 f01 f23 by linarith+
  from r1 r2a r2b res b show ?thesis by blast
qed

theorem trace_under_rounding_witness:
  "find_best_segments_with sum_list [1/10, 1/10, 9/10, 9/10, 1/10] 3 5 (15/100) =
     Some ([(1, 4)], [19/10]) \<and>
   search_round_with sum_list [1/10, 1/10, 9/10, 9/10, 1/10] [] 3 (15/100) =
     (19/10, Some (1, 4)) \<and>
   find_best_segments_with sum_one_step_up [1/10, 1/10, 9/10, 9/10, 1/10] 3 5 (15/100) =
     Some ([(0, 2), (2, 5)], [19/10 + 1/10^16, 2/10]) \<and>
   search_round_with sum_one_step_up [1/10, 1/10, 9/10, 9/10, 1/10] [] 3 (15/100) =
     (19/10 + 1/10^16, Some (2, 5))"
proof -
  let ?V = "[1/10, 1/10, 9/10, 9/10, 1/10] :: real list"
  have exact: "\<forall>s e. \<bar>sum_list (slice ?V s e) - sum_list (slice ?V s e)\<bar> \<le> 1/1000"
    by simp
  have up: "\<forall>s e. \<bar>sum_one_step_up (slice ?V s e) - sum_list (slice ?V s e)\<bar> \<le> 1/1000"
    by (auto simp: sum_one_step_up_def)
  have "find_best_segments_with sum_list ?V 3 5 (15/100) = Some ([(1, 4)], [19/10]) \<and>
        search_round_with sum_list ?V [] 3 (15/100) = (19/10, Some (1, 4))"
    using trace_under_rounding [of "1/10" "1/10" "9/10" "9/10" "1/10" "15/100" sum_list,
        OF _ _ _ _ _ _ exact]
    by simp
  moreover
  have "find_best_segments_with sum_one_step_up ?V 3 5 (15/100) =
          Some ([(0, 2), (2, 5)], [19/10 + 1/10^16, 2/10]) \<and>
        search_round_with sum_one_step_up ?V [] 3 (15/100) = (19/10 + 1/10^16, Some (2, 5))"
    using trace_under_rounding [of "1/10" "1/10" "9/10" "9/10" "1/10" "15/100" sum_one_step_up,
        OF _ _ _ _ _ _ up]
    by (simp add: sum_one_step_up_def)
  ultimately show ?thesis by blast
qed

theorem trace_first_round_counterexample:
  "search_round_with sum_list [1/10, 1/10, 9/10, 9/10, 1/10] [] 3 (15/100) \<noteq>
     (18/10, Some (2, 4)) \<and>
   search_round_with sum_one_step_up [1/10, 1/10, 9/10, 9/10, 1/10] [] 3 (15/100) \<noteq>
     (18/10, Some (2, 4)) \<and>
   find_best_segments_with sum_list [1/10, 1/10, 9/10, 9/10, 1/10] 3 5 (15/100) \<noteq>
     Some ([(0, 2), (2, 4)], [18/10, 2/10]) \<and>
   find_best_segments_with sum_one_step_up [1/10, 1/10, 9/10, 9/10, 1/10] 3 5 (15/100) \<noteq>
     Some ([(0, 2), (2, 4)], [18/10, 2/10])"
  by (simp add: with_eval sum_one_step_up_def)

end
